theory Spec2Isabelle
  imports Main
begin

section \<open>Strings and arrays of the host language\<close>

text \<open>
  Strings are lists of 8-bit characters. The operations below follow the
  JavaScript built-ins on the ASCII range, which is where every literal of the
  program lives: \<open>toLowerCase\<close> maps \<open>A\<close>..\<open>Z\<close> to \<open>a\<close>..\<open>z\<close> and leaves every
  other character alone, \<open>trim\<close> strips TAB, LF, VT, FF, CR and SPACE from both
  ends.
\<close>

definition lower_char :: "char \<Rightarrow> char" where
  "lower_char c =
     (let n = (of_char c :: nat) in if 65 \<le> n \<and> n \<le> 90 then char_of (n + 32) else c)"

definition toLowerCase :: "string \<Rightarrow> string" where
  "toLowerCase s = map lower_char s"

definition is_space :: "char \<Rightarrow> bool" where
  "is_space c = ((of_char c :: nat) \<in> {9, 10, 11, 12, 13, 32})"

definition trim :: "string \<Rightarrow> string" where
  "trim s = rev (dropWhile is_space (rev (dropWhile is_space s)))"

text \<open>\<open>s.startsWith(t)\<close> and \<open>s.includes(t)\<close> on strings: \<open>t\<close> occurs at the
  front of \<open>s\<close>, respectively at some position of \<open>s\<close>.\<close>

definition startsWith :: "string \<Rightarrow> string \<Rightarrow> bool" where
  "startsWith s t = (take (length t) s = t)"

fun includes_str :: "string \<Rightarrow> string \<Rightarrow> bool" where
  "includes_str [] t = (t = [])"
| "includes_str (c # cs) t = (startsWith (c # cs) t \<or> includes_str cs t)"

text \<open>\<open>[...new Set(xs)]\<close>: a set keeps its elements in the order of their first
  insertion, and adding a member again changes nothing.\<close>

definition set_add :: "'a list \<Rightarrow> 'a \<Rightarrow> 'a list" where
  "set_add acc x = (if x \<in> set acc then acc else acc @ [x])"

definition new_Set :: "'a list \<Rightarrow> 'a list" where
  "new_Set xs = foldl set_add [] xs"

text \<open>\<open>xs.indexOf(x)\<close>: the first position of \<open>x\<close>, or \<open>-1\<close>.\<close>

fun indexOf :: "'a list \<Rightarrow> 'a \<Rightarrow> int" where
  "indexOf [] x = - 1"
| "indexOf (y # ys) x =
     (if y = x then 0 else (let i = indexOf ys x in if i = - 1 then - 1 else i + 1))"

text \<open>\<open>xs.sort(cmp)\<close>: the language requires a stable sort, and for a consistent
  comparator the result is the one sorted arrangement that keeps equal elements
  in their input order. Insertion from the right computes it: an element goes in
  front of the first element it does not exceed.\<close>

fun insert_by :: "('a \<Rightarrow> 'a \<Rightarrow> int) \<Rightarrow> 'a \<Rightarrow> 'a list \<Rightarrow> 'a list" where
  "insert_by cmp x [] = [x]"
| "insert_by cmp x (y # ys) = (if cmp x y \<le> 0 then x # y # ys else y # insert_by cmp x ys)"

definition sort_by :: "('a \<Rightarrow> 'a \<Rightarrow> int) \<Rightarrow> 'a list \<Rightarrow> 'a list" where
  "sort_by cmp xs = foldr (insert_by cmp) xs []"

text \<open>The comparator of \<open>xs.sort()\<close> without an argument: strings compare by
  their code units, a proper prefix first.\<close>

fun code_unit_compare :: "string \<Rightarrow> string \<Rightarrow> int" where
  "code_unit_compare [] [] = 0"
| "code_unit_compare [] (y # ys) = - 1"
| "code_unit_compare (x # xs) [] = 1"
| "code_unit_compare (x # xs) (y # ys) =
     (if (of_char x :: nat) < of_char y then - 1
      else if (of_char y :: nat) < of_char x then 1
      else code_unit_compare xs ys)"

definition sort_default :: "string list \<Rightarrow> string list" where
  "sort_default xs = sort_by code_unit_compare xs"

text \<open>A comparator is consistent when "not greater" is total and transitive.
  The language standard requires this of \<open>localeCompare\<close>, whose collation
  order is the host's and enters the model as the parameter \<open>lc\<close>.\<close>

definition consistent :: "('a \<Rightarrow> 'a \<Rightarrow> int) \<Rightarrow> bool" where
  "consistent cmp =
     ((\<forall>a b. cmp a b \<le> 0 \<or> cmp b a \<le> 0) \<and>
      (\<forall>a b c. cmp a b \<le> 0 \<longrightarrow> cmp b c \<le> 0 \<longrightarrow> cmp a c \<le> 0))"

section \<open>Video records\<close>

text \<open>
  Modelled from the spec: the \<open>Video\<close> interface is declared in the database
  module, which is not among the sources. The fields are those of the data model;
  \<open>category\<close>, \<open>tags\<close>, \<open>thumbnail\<close> and \<open>duration\<close> may be absent (\<open>None\<close> is
  \<open>undefined\<close>), as the guards \<open>video.tags || []\<close>, \<open>video.tags?.some\<close> and
  \<open>duration?: string\<close> of the page expect; \<open>title\<close> and \<open>description\<close> are
  strings.
\<close>

record video =
  id_field :: string
  title :: string
  description :: string
  videoUrl :: string
  thumbnail :: "string option"
  category :: "string option"
  tags :: "string list option"
  duration :: "string option"

section \<open>Category Reconciler (page.tsx, \<open>loadVideos\<close> and \<open>categories\<close>)\<close>

definition staticCategories :: "string list" where
  "staticCategories =
     [''All'', ''Music'', ''Interviews'', ''Podcasts'', ''Freestyle'', ''Off The Porch'']"

definition order :: "string list" where
  "order = [''All'', ''Music'', ''Interviews'', ''Podcasts'', ''Freestyle'', ''Off The Porch'']"

text \<open>\<open>.filter(Boolean)\<close> drops \<open>undefined\<close> and the empty string.\<close>

fun filter_Boolean :: "string option list \<Rightarrow> string list" where
  "filter_Boolean [] = []"
| "filter_Boolean (None # xs) = filter_Boolean xs"
| "filter_Boolean (Some s # xs) = (if s = [] then filter_Boolean xs else s # filter_Boolean xs)"

definition categoryFromField :: "video list \<Rightarrow> string list" where
  "categoryFromField videoList = filter_Boolean (new_Set (map category videoList))"

definition categoriesFromTags :: "video list \<Rightarrow> string list" where
  "categoriesFromTags videoList =
     filter (\<lambda>t. t \<noteq> [])
       (new_Set (concat (map (\<lambda>v. case tags v of None \<Rightarrow> [] | Some ts \<Rightarrow> ts) videoList)))"

definition allUniqueCategories :: "video list \<Rightarrow> string list" where
  "allUniqueCategories videoList =
     filter (\<lambda>t. t \<noteq> []) (new_Set (categoryFromField videoList @ categoriesFromTags videoList))"

text \<open>The state written by \<open>loadVideos\<close>: \<open>dynamicCategories\<close> is replaced only
  when the load observed a category, and is left as it was otherwise.\<close>

definition loadVideos :: "string list \<Rightarrow> video list \<Rightarrow> string list" where
  "loadVideos dynamicCategories videoList =
     (let allUnique = allUniqueCategories videoList in
      if length allUnique > 0 then ''All'' # sort_default allUnique
      else dynamicCategories)"

definition compareCategories :: "(string \<Rightarrow> string \<Rightarrow> int) \<Rightarrow> string \<Rightarrow> string \<Rightarrow> int" where
  "compareCategories lc a b =
     (let aIndex = indexOf order a; bIndex = indexOf order b in
      if aIndex \<noteq> - 1 \<and> bIndex \<noteq> - 1 then aIndex - bIndex
      else if aIndex \<noteq> - 1 then - 1
      else if bIndex \<noteq> - 1 then 1
      else lc a b)"

definition categories :: "(string \<Rightarrow> string \<Rightarrow> int) \<Rightarrow> string list \<Rightarrow> string list" where
  "categories lc dynamicCategories =
     (if length dynamicCategories > 0
      then sort_by (compareCategories lc)
             (''All'' # new_Set (drop 1 staticCategories @ drop 1 dynamicCategories))
      else staticCategories)"

section \<open>Video Filter (page.tsx, \<open>filterVideos\<close>)\<close>

definition categoryStage :: "string \<Rightarrow> video \<Rightarrow> bool" where
  "categoryStage selectedCategory v =
     (let categoryMatches = (category v = Some selectedCategory);
          tagsInclude = (case tags v of None \<Rightarrow> False | Some ts \<Rightarrow> selectedCategory \<in> set ts)
      in categoryMatches \<or> tagsInclude)"

definition searchStage :: "string \<Rightarrow> video \<Rightarrow> bool" where
  "searchStage searchTerm v =
     (includes_str (toLowerCase (title v)) (toLowerCase searchTerm) \<or>
      includes_str (toLowerCase (description v)) (toLowerCase searchTerm) \<or>
      (case tags v of None \<Rightarrow> False
       | Some ts \<Rightarrow> list_ex (\<lambda>tag. includes_str (toLowerCase tag) (toLowerCase searchTerm)) ts))"

definition filterVideos :: "video list \<Rightarrow> string \<Rightarrow> string \<Rightarrow> video list" where
  "filterVideos videos selectedCategory searchTerm =
     (let filtered = (if selectedCategory \<noteq> ''All''
                      then filter (categoryStage selectedCategory) videos else videos)
      in if trim searchTerm \<noteq> [] then filter (searchStage searchTerm) filtered else filtered)"

section \<open>Duration Formatter (page.tsx, \<open>formatDuration\<close>)\<close>

definition is_digit :: "char \<Rightarrow> bool" where
  "is_digit c = (c \<in> set ''0123456789'')"

definition digit_val :: "char \<Rightarrow> nat" where
  "digit_val c = of_char c - 48"

text \<open>\<open>parseInt\<close> on a run of decimal digits, which is all the pattern captures.
  The value is exact while it stays below \<open>2 ^ 53\<close>; beyond that the program
  holds a rounded double, which this model does not follow.\<close>

definition parseInt :: "string \<Rightarrow> nat" where
  "parseInt ds = foldl (\<lambda>n c. 10 * n + digit_val c) 0 ds"

definition digit_char :: "nat \<Rightarrow> char" where
  "digit_char d = ''0123456789'' ! d"

text \<open>A non-negative integer as its decimal string (\<open>toString\<close>, and the
  conversion a template literal applies).\<close>

function toString :: "nat \<Rightarrow> string" where
  "toString n = (if n < 10 then [digit_char n] else toString (n div 10) @ [digit_char (n mod 10)])"
  by pat_completeness auto
termination
  by (relation "measure id") auto

declare toString.simps [simp del]

definition padStart :: "nat \<Rightarrow> char \<Rightarrow> string \<Rightarrow> string" where
  "padStart n c s = replicate (n - length s) c @ s"

text \<open>One optional group \<open>(?:(\d+)X)?\<close> of the pattern, tried at the front of \<open>s\<close>:
  the longest run of digits, taken when it is not empty and \<open>X\<close> follows it.
  The result is the capture and what is left of the input.\<close>

definition opt_group :: "char \<Rightarrow> string \<Rightarrow> string option \<times> string" where
  "opt_group X s =
     (let ds = takeWhile is_digit s; r = dropWhile is_digit s in
      if ds \<noteq> [] \<and> r \<noteq> [] \<and> hd r = X then (Some ds, tl r) else (None, s))"

text \<open>The pattern is not anchored: the match starts at the leftmost \<open>PT\<close>.\<close>

fun search_PT :: "string \<Rightarrow> string option" where
  "search_PT [] = None"
| "search_PT (c # cs) = (if startsWith (c # cs) ''PT'' then Some (drop 2 (c # cs)) else search_PT cs)"

definition duration_match :: "string \<Rightarrow> (string option \<times> string option \<times> string option) option" where
  "duration_match d =
     (case search_PT d of None \<Rightarrow> None
      | Some r0 \<Rightarrow>
          (let (h, r1) = opt_group CHR ''H'' r0;
               (m, r2) = opt_group CHR ''M'' r1;
               (s, r3) = opt_group CHR ''S'' r2
           in Some (h, m, s)))"

definition formatDuration :: "string option \<Rightarrow> string option" where
  "formatDuration dur =
     (case dur of None \<Rightarrow> None
      | Some d \<Rightarrow>
          if d = [] then None
          else (case duration_match d of None \<Rightarrow> None
                | Some (m1, m2, m3) \<Rightarrow>
                    (let hours = (case m1 of Some g \<Rightarrow> parseInt g | None \<Rightarrow> 0);
                         minutes = (case m2 of Some g \<Rightarrow> parseInt g | None \<Rightarrow> 0);
                         seconds = (case m3 of Some g \<Rightarrow> parseInt g | None \<Rightarrow> 0)
                     in if hours > 0
                        then Some (toString hours @ '':'' @ padStart 2 CHR ''0'' (toString minutes)
                                   @ '':'' @ padStart 2 CHR ''0'' (toString seconds))
                        else Some (toString minutes @ '':'' @ padStart 2 CHR ''0'' (toString seconds)))))"

section \<open>Category Auto-Detector (VideoForm, \<open>detectCategoriesFromContent\<close>)\<close>

definition detectCategoriesFromContent :: "string \<Rightarrow> string \<Rightarrow> string list" where
  "detectCategoriesFromContent ttl descr =
     (let content = toLowerCase (ttl @ '' '' @ descr);
          d0 = [];
          d1 = (if includes_str content ''music'' \<or> includes_str content ''song'' \<or>
                   includes_str content ''album'' \<or> includes_str content ''artist'' \<or>
                   includes_str content ''beat'' \<or> includes_str content ''track''
                then d0 @ [''Music''] else d0);
          d2 = (if includes_str content ''interview'' \<or> includes_str content ''conversation'' \<or>
                   includes_str content ''talk'' \<or> includes_str content ''discussion''
                then d1 @ [''Interviews''] else d1);
          d3 = (if includes_str content ''podcast'' \<or> includes_str content ''episode'' \<or>
                   includes_str content ''show''
                then d2 @ [''Podcasts''] else d2);
          d4 = (if includes_str content ''freestyle'' \<or> includes_str content ''cypher'' \<or>
                   includes_str content ''bars'' \<or> includes_str content ''rap'' \<or>
                   includes_str content ''flow''
                then d3 @ [''Freestyle''] else d3);
          d5 = (if includes_str content ''off the porch'' \<or> includes_str content ''porch'' \<or>
                   includes_str content ''street'' \<or> includes_str content ''hood''
                then d4 @ [''Off The Porch''] else d4)
      in if length d5 > 0 then d5 else [''Music''])"

section \<open>Records as they are stored, and faults\<close>

text \<open>
  The records come from the document store without a check of their shape, so at
  run time any field can be missing. On such a record the fields read as
  \<open>undefined\<close>, and calling a method on \<open>undefined\<close> throws a \<open>TypeError\<close>.
  The Filter and the Formatter are modelled a second time on these records, with
  the fault as a result, to see which of their method calls are guarded.
\<close>

datatype fault = TypeError






text \<open>\<open>xs.filter(p)\<close> with a callback that may throw: the elements are visited
  in order and the first fault ends the call.\<close>

fun filter_raw :: "('a \<Rightarrow> fault + bool) \<Rightarrow> 'a list \<Rightarrow> fault + 'a list" where
  "filter_raw p [] = Inr []"
| "filter_raw p (x # xs) =
     (case p x of
        Inl e \<Rightarrow> Inl e
      | Inr b \<Rightarrow> (case filter_raw p xs of
                    Inl e \<Rightarrow> Inl e
                  | Inr ys \<Rightarrow> Inr (if b then x # ys else ys)))"



section \<open>Notions of the specification\<close>

text \<open>"\<open>t\<close> occurs as a substring of \<open>s\<close>", stated without reference to any
  search procedure.\<close>

definition is_substring :: "string \<Rightarrow> string \<Rightarrow> bool" where
  "is_substring t s = (\<exists>pre post. s = pre @ t @ post)"

text \<open>The tags of a record as a sequence, an absent sequence read as the empty
  one.\<close>

definition tagsOrEmpty :: "video \<Rightarrow> string list" where
  "tagsOrEmpty v = (case tags v of None \<Rightarrow> [] | Some ts \<Rightarrow> ts)"

text \<open>The two records of the filter examples, with the fields the examples leave
  open filled in.\<close>

definition video_A :: video where
  "video_A = \<lparr>id_field = ''a'', title = ''Song One'', description = ''first'',
     videoUrl = ''https://youtu.be/a'', thumbnail = None, category = Some ''Music'',
     tags = Some [''Music''], duration = Some ''PT4M13S''\<rparr>"

definition video_B :: video where
  "video_B = \<lparr>id_field = ''b'', title = ''Two'', description = ''second'',
     videoUrl = ''https://youtu.be/b'', thumbnail = None, category = Some ''All'',
     tags = Some [''Freestyle'', ''All''], duration = None\<rparr>"

text \<open>One component of a duration, \<open><digits>X\<close>, or nothing when it is left
  out.\<close>

definition component :: "string \<Rightarrow> char \<Rightarrow> string" where
  "component ds X = (if ds = [] then [] else ds @ [X])"

text \<open>The taxonomy without \<open>All\<close>, and the keyword set of each of its
  categories, as the specification lists them.\<close>

definition taxonomy :: "string list" where
  "taxonomy = [''Music'', ''Interviews'', ''Podcasts'', ''Freestyle'', ''Off The Porch'']"

definition keywords_of :: "string \<Rightarrow> string list" where
  "keywords_of c =
     (if c = ''Music'' then [''music'', ''song'', ''album'', ''artist'', ''beat'', ''track'']
      else if c = ''Interviews'' then [''interview'', ''conversation'', ''talk'', ''discussion'']
      else if c = ''Podcasts'' then [''podcast'', ''episode'', ''show'']
      else if c = ''Freestyle'' then [''freestyle'', ''cypher'', ''bars'', ''rap'', ''flow'']
      else if c = ''Off The Porch'' then [''off the porch'', ''porch'', ''street'', ''hood'']
      else [])"

text \<open>A category is detected when one of its keywords occurs in the lower-cased
  text made of the title, one space, and the description.\<close>

definition detected :: "string \<Rightarrow> string \<Rightarrow> string \<Rightarrow> bool" where
  "detected ttl descr c =
     (\<exists>k \<in> set (keywords_of c). is_substring k (toLowerCase (ttl @ '' '' @ descr)))"

text \<open>A record that carries categories outside the static list, and an empty
  tag.\<close>

definition video_C :: video where
  "video_C = \<lparr>id_field = ''c'', title = ''Three'', description = '''',
     videoUrl = ''https://youtu.be/c'', thumbnail = None, category = Some ''Vlogs'',
     tags = Some [''Zed'', ''apple'', ''Banana'', ''Music'', ''''], duration = Some ''PT59S''\<rparr>"






section \<open>Substrings and trimming\<close>

lemma startsWith_iff: "startsWith s t \<longleftrightarrow> (\<exists>post. s = t @ post)"
proof
  assume "startsWith s t"
  then have "s = t @ drop (length t) s"
    unfolding startsWith_def by (metis append_take_drop_id)
  then show "\<exists>post. s = t @ post" ..
next
  assume "\<exists>post. s = t @ post"
  then show "startsWith s t" by (auto simp: startsWith_def)
qed

lemma includes_str_iff: "includes_str s t \<longleftrightarrow> is_substring t s"
proof (induction s)
  case Nil
  show ?case by (auto simp: is_substring_def)
next
  case (Cons c cs)
  have "is_substring t (c # cs) \<longleftrightarrow> startsWith (c # cs) t \<or> is_substring t cs"
    unfolding is_substring_def startsWith_iff
    by (auto simp: Cons_eq_append_conv)
  with Cons show ?case by simp
qed

lemma is_substring_trans:
  "is_substring a b \<Longrightarrow> is_substring b c \<Longrightarrow> is_substring a c"
  unfolding is_substring_def by (metis append.assoc)

lemma trim_core:
  "dropWhile is_space s = trim s @ rev (takeWhile is_space (rev (dropWhile is_space s)))"
proof -
  let ?u = "dropWhile is_space s"
  have "rev ?u = takeWhile is_space (rev ?u) @ dropWhile is_space (rev ?u)" by simp
  then have "rev (rev ?u) = rev (takeWhile is_space (rev ?u) @ dropWhile is_space (rev ?u))"
    by simp
  then show ?thesis unfolding trim_def by (simp del: takeWhile_dropWhile_id)
qed

lemma trim_sublist: "\<exists>pre post. s = pre @ trim s @ post"
proof -
  have "s = takeWhile is_space s @ dropWhile is_space s" by simp
  with trim_core [of s]
  have "s = takeWhile is_space s @ trim s @ rev (takeWhile is_space (rev (dropWhile is_space s)))"
    by simp
  then show ?thesis by blast
qed

lemma is_substring_lower_trim: "is_substring (toLowerCase (trim s)) (toLowerCase s)"
proof -
  obtain pre post where "s = pre @ trim s @ post" using trim_sublist by blast
  then have "toLowerCase s = toLowerCase pre @ toLowerCase (trim s) @ toLowerCase post"
    unfolding toLowerCase_def by (metis map_append)
  then show ?thesis unfolding is_substring_def by blast
qed

lemma trim_ends:
  assumes "trim s \<noteq> []"
  shows "\<not> is_space (hd (trim s))" and "\<not> is_space (last (trim s))"
proof -
  let ?u = "dropWhile is_space s"
  let ?w = "dropWhile is_space (rev ?u)"
  from assms have w: "?w \<noteq> []" by (simp add: trim_def)
  then have "\<not> is_space (hd ?w)" by (rule hd_dropWhile)
  with w show "\<not> is_space (last (trim s))" by (simp add: trim_def last_rev)
  have u: "?u \<noteq> []"
  proof
    assume e: "?u = []"
    have "?w = []" unfolding e by simp
    with w show False ..
  qed
  then have hu: "\<not> is_space (hd ?u)" by (rule hd_dropWhile)
  from assms trim_core [of s] have "hd ?u = hd (trim s)" by (metis hd_append2)
  with hu show "\<not> is_space (hd (trim s))" by simp
qed

lemma trim_idem: "trim (trim s) = trim s"
proof (cases "trim s = []")
  case True
  have "trim [] = []" by (simp add: trim_def)
  with True show ?thesis by simp
next
  case False
  from trim_ends [OF False] have h: "\<not> is_space (hd (trim s))" and l: "\<not> is_space (last (trim s))"
    by simp_all
  from h False have 1: "dropWhile is_space (trim s) = trim s"
    by (simp add: dropWhile_eq_self_iff)
  from l False have 2: "dropWhile is_space (rev (trim s)) = rev (trim s)"
    by (simp add: dropWhile_eq_self_iff hd_rev)
  show ?thesis
    by (subst (1) trim_def) (simp add: 1 2)
qed

section \<open>The Video Filter\<close>

lemma filterVideos_filter:
  "filterVideos vs c s =
     filter (\<lambda>v. (c = ''All'' \<or> categoryStage c v) \<and> (trim s = [] \<or> searchStage s v)) vs"
  by (auto simp: filterVideos_def Let_def intro: filter_cong)

lemma categoryStage_iff:
  "categoryStage c v \<longleftrightarrow> category v = Some c \<or> c \<in> set (tagsOrEmpty v)"
  by (simp add: categoryStage_def tagsOrEmpty_def split: option.splits)

lemma searchStage_iff:
  "searchStage s v \<longleftrightarrow>
     is_substring (toLowerCase s) (toLowerCase (title v)) \<or>
     is_substring (toLowerCase s) (toLowerCase (description v)) \<or>
     (\<exists>tag \<in> set (tagsOrEmpty v). is_substring (toLowerCase s) (toLowerCase tag))"
  by (auto simp: searchStage_def tagsOrEmpty_def includes_str_iff list_ex_iff split: option.splits)

lemma searchStage_trim: "searchStage s v \<Longrightarrow> searchStage (trim s) v"
  unfolding searchStage_iff
  using is_substring_trans [OF is_substring_lower_trim] by blast

text \<open>
  Claim C2. A record is in the output of the filter exactly when it passes the
  category test (the selected category is \<open>All\<close>, or equals the record's
  \<open>category\<close> field, or is one of its tags) and the text test (the search term
  is empty after trimming, or its lower-cased form occurs in the lower-cased
  title, description or some tag); the output is the input with the other records
  removed, so the relative order is kept. For records \<open>A\<close> (category \<open>Music\<close>,
  tags \<open>[Music]\<close>) and \<open>B\<close> (category \<open>All\<close>, tags \<open>[Freestyle, All]\<close>), whatever
  their other fields: selecting \<open>Music\<close> gives \<open>[A]\<close>, \<open>All\<close> gives \<open>[A, B]\<close>,
  \<open>Freestyle\<close> gives \<open>[B]\<close>, and searching \<open>free\<close> under \<open>All\<close> gives \<open>[B]\<close>
  provided the title and description of \<open>A\<close> do not themselves contain \<open>free\<close>.
\<close>

theorem filterVideos_characterisation:
  "filterVideos vs c s =
     filter (\<lambda>v. (c = ''All'' \<or> category v = Some c \<or> c \<in> set (tagsOrEmpty v)) \<and>
                 (trim s = [] \<or>
                  is_substring (toLowerCase s) (toLowerCase (title v)) \<or>
                  is_substring (toLowerCase s) (toLowerCase (description v)) \<or>
                  (\<exists>tag \<in> set (tagsOrEmpty v). is_substring (toLowerCase s) (toLowerCase tag)))) vs
   \<and> (let A = a\<lparr>category := Some ''Music'', tags := Some [''Music'']\<rparr>;
           B = b\<lparr>category := Some ''All'', tags := Some [''Freestyle'', ''All'']\<rparr>
       in filterVideos [A, B] ''Music'' '''' = [A] \<and>
          filterVideos [A, B] ''All'' '''' = [A, B] \<and>
          filterVideos [A, B] ''Freestyle'' '''' = [B] \<and>
          (\<not> is_substring ''free'' (toLowerCase (title a)) \<and>
           \<not> is_substring ''free'' (toLowerCase (description a)) \<longrightarrow>
           filterVideos [A, B] ''All'' ''free'' = [B]))"
proof -
  have general: "filterVideos vs c s =
     filter (\<lambda>v. (c = ''All'' \<or> category v = Some c \<or> c \<in> set (tagsOrEmpty v)) \<and>
                 (trim s = [] \<or>
                  is_substring (toLowerCase s) (toLowerCase (title v)) \<or>
                  is_substring (toLowerCase s) (toLowerCase (description v)) \<or>
                  (\<exists>tag \<in> set (tagsOrEmpty v). is_substring (toLowerCase s) (toLowerCase tag)))) vs"
    by (simp add: filterVideos_filter categoryStage_iff searchStage_iff)
  have trim_empty: "trim '''' = ''''" by (simp add: trim_def)
  have trim_free: "trim ''free'' = ''free''" by code_simp
  have low_free: "toLowerCase ''free'' = ''free''" by code_simp
  have tag_free: "includes_str (toLowerCase ''Freestyle'') ''free''" by code_simp
  have no_free: "\<not> includes_str (toLowerCase ''Music'') ''free''" by code_simp
  show ?thesis
    apply (rule conjI)
     apply (rule general)
    apply (simp add: Let_def filterVideos_filter categoryStage_def searchStage_def trim_empty
        trim_free low_free tag_free no_free includes_str_iff [symmetric])
    done
qed

theorem filterVideos_characterisation_witness:
  "filterVideos [video_A, video_B] ''Music'' '''' = [video_A] \<and>
   filterVideos [video_A, video_B] ''All'' '''' = [video_A, video_B] \<and>
   filterVideos [video_A, video_B] ''Freestyle'' '''' = [video_B] \<and>
   filterVideos [video_A, video_B] ''All'' ''free'' = [video_B]"
proof -
  have t: "\<not> includes_str (toLowerCase (title video_A)) ''free''"
    unfolding video_A_def by code_simp
  have d: "\<not> includes_str (toLowerCase (description video_A)) ''free''"
    unfolding video_A_def by code_simp
  have A: "video_A\<lparr>category := Some ''Music'', tags := Some [''Music'']\<rparr> = video_A"
    by (simp add: video_A_def)
  have B: "video_B\<lparr>category := Some ''All'', tags := Some [''Freestyle'', ''All'']\<rparr> = video_B"
    by (simp add: video_B_def)
  from filterVideos_characterisation [of "[]" "''All''" "''''" video_A video_B] t d
  show ?thesis
    unfolding Let_def A B includes_str_iff by simp
qed

text \<open>
  Claim C3, as amended. The trimmed search term decides only whether the text
  stage runs. When it runs, records are matched against the term as given,
  surrounding whitespace included: a record is kept iff the lower-cased untrimmed
  term occurs in its lower-cased title, description or some tag. The records kept
  for a term are those kept for its trimmed value that also contain the untrimmed
  term; the two results coincide when trimming leaves the term unchanged.
\<close>

theorem searchTerm_not_trimmed:
  "trim s \<noteq> [] \<Longrightarrow>
   filterVideos vs c s =
     filter (\<lambda>v. (c = ''All'' \<or> category v = Some c \<or> c \<in> set (tagsOrEmpty v)) \<and>
                 (is_substring (toLowerCase s) (toLowerCase (title v)) \<or>
                  is_substring (toLowerCase s) (toLowerCase (description v)) \<or>
                  (\<exists>tag \<in> set (tagsOrEmpty v). is_substring (toLowerCase s) (toLowerCase tag)))) vs
   \<and> filterVideos vs c s = filter (searchStage s) (filterVideos vs c (trim s))
   \<and> (trim s = s \<longrightarrow> filterVideos vs c s = filterVideos vs c (trim s))"
proof -
  assume ne: "trim s \<noteq> []"
  have a: "filterVideos vs c s =
     filter (\<lambda>v. (c = ''All'' \<or> category v = Some c \<or> c \<in> set (tagsOrEmpty v)) \<and>
                 (is_substring (toLowerCase s) (toLowerCase (title v)) \<or>
                  is_substring (toLowerCase s) (toLowerCase (description v)) \<or>
                  (\<exists>tag \<in> set (tagsOrEmpty v). is_substring (toLowerCase s) (toLowerCase tag)))) vs"
    using ne by (simp add: filterVideos_filter categoryStage_iff searchStage_iff)
  have b: "filterVideos vs c s = filter (searchStage s) (filterVideos vs c (trim s))"
    using ne searchStage_trim [of s]
    by (auto simp: filterVideos_filter trim_idem intro: filter_cong)
  show ?thesis using a b by simp
qed

theorem searchTerm_not_trimmed_witness:
  "trim ''free '' = ''free'' \<and>
   filterVideos [video_A, video_B] ''All'' ''free '' = [] \<and>
   filterVideos [video_A, video_B] ''All'' (trim ''free '') = [video_B]"
proof -
  have ne: "trim ''free '' \<noteq> []" by code_simp
  have tr: "trim ''free '' = ''free''" by code_simp
  have r: "filterVideos [video_A, video_B] ''All'' ''free'' = [video_B]"
    unfolding video_A_def video_B_def by code_simp
  have n: "\<not> searchStage ''free '' video_B"
    unfolding video_B_def by code_simp
  from searchTerm_not_trimmed [OF ne, of "[video_A, video_B]" "''All''"]
  have "filterVideos [video_A, video_B] ''All'' ''free '' =
        filter (searchStage ''free '') (filterVideos [video_A, video_B] ''All'' (trim ''free ''))"
    by blast
  with tr r n show ?thesis by simp
qed

theorem searchTerm_trimmed_counterexample:
  "filterVideos [\<lparr>id_field = ''b'', title = ''Two'', description = ''second'',
       videoUrl = ''https://youtu.be/b'', thumbnail = None, category = Some ''All'',
       tags = Some [''Freestyle'', ''All''], duration = None\<rparr>] ''All'' ''free '' \<noteq>
   filterVideos [\<lparr>id_field = ''b'', title = ''Two'', description = ''second'',
       videoUrl = ''https://youtu.be/b'', thumbnail = None, category = Some ''All'',
       tags = Some [''Freestyle'', ''All''], duration = None\<rparr>] ''All'' (trim ''free '')"
  by code_simp

text \<open>
  Claim C8. Filtering is idempotent: applying the filter, with the same category
  and search term, to its own output changes nothing.
\<close>

theorem filterVideos_idempotent:
  "filterVideos (filterVideos r c s) c s = filterVideos r c s"
  by (simp add: filterVideos_filter)

theorem filterVideos_idempotent_witness:
  "filterVideos (filterVideos [video_A, video_B] ''All'' ''free'') ''All'' ''free'' = [video_B]"
proof -
  have r: "filterVideos [video_A, video_B] ''All'' ''free'' = [video_B]"
    unfolding video_A_def video_B_def by code_simp
  from filterVideos_idempotent [of "[video_A, video_B]" "''All''" "''free''"] r
  show ?thesis by simp
qed

section \<open>The Duration Formatter\<close>

lemma search_PT_None_iff: "search_PT d = None \<longleftrightarrow> \<not> is_substring ''PT'' d"
  unfolding includes_str_iff [symmetric]
  by (induction d) auto

lemma duration_match_None_iff: "duration_match d = None \<longleftrightarrow> \<not> is_substring ''PT'' d"
  unfolding search_PT_None_iff [symmetric]
  by (simp add: duration_match_def Let_def split: option.splits prod.splits)

lemma formatDuration_None_iff:
  "formatDuration (Some d) = None \<longleftrightarrow> \<not> is_substring ''PT'' d"
proof (cases "d = []")
  case True
  then show ?thesis by (simp add: formatDuration_def is_substring_def)
next
  case False
  then show ?thesis
    unfolding duration_match_None_iff [symmetric]
    by (simp add: formatDuration_def Let_def split: option.splits prod.splits)
qed

lemma opt_group_digits:
  assumes "list_all is_digit ds" and "\<not> is_digit c"
  shows "opt_group X (ds @ c # rest) =
           (if ds \<noteq> [] \<and> c = X then (Some ds, rest) else (None, ds @ c # rest))"
proof -
  from assms(1) have all: "\<And>x. x \<in> set ds \<Longrightarrow> is_digit x" by (simp add: list_all_iff)
  from all assms(2) have t: "takeWhile is_digit (ds @ c # rest) = ds"
    by (simp add: takeWhile_append2)
  from all assms(2) have d: "dropWhile is_digit (ds @ c # rest) = c # rest"
    by (simp add: dropWhile_append2)
  show ?thesis by (simp add: opt_group_def t d del: takeWhile_append dropWhile_append)
qed

lemma letters_not_digits:
  "\<not> is_digit CHR ''H''" "\<not> is_digit CHR ''M''" "\<not> is_digit CHR ''S''"
  by (simp_all add: is_digit_def)

lemma search_PT_prefix:
  "\<not> is_substring ''PT'' pre \<Longrightarrow> search_PT (pre @ ''PT'' @ r) = Some r"
  unfolding includes_str_iff [symmetric]
proof (induction pre)
  case Nil
  show ?case by (simp add: startsWith_def)
next
  case (Cons c pre)
  from Cons.prems have here: "\<not> startsWith (c # pre) ''PT''"
    and later: "\<not> includes_str pre ''PT''" by simp_all
  from here have "\<not> startsWith (c # pre @ ''PT'' @ r) ''PT''"
    by (cases pre) (auto simp: startsWith_def)
  with Cons.IH [OF later] show ?case by simp
qed

lemma opt_group_nondigit:
  "post = [] \<or> \<not> is_digit (hd post) \<Longrightarrow> opt_group X post = (None, post)"
  by (cases post) (auto simp: opt_group_def)

lemma duration_match_encoding:
  assumes "list_all is_digit hs" "list_all is_digit ms" "list_all is_digit ss"
    and "\<not> is_substring ''PT'' pre" and "post = [] \<or> \<not> is_digit (hd post)"
  shows "duration_match (pre @ ''PT'' @ component hs CHR ''H'' @ component ms CHR ''M'' @
           component ss CHR ''S'' @ post)
         = Some (if hs = [] then None else Some hs, if ms = [] then None else Some ms,
                 if ss = [] then None else Some ss)"
proof -
  note s = search_PT_prefix [OF assms(4)]
  note og = opt_group_digits [OF assms(1)] opt_group_digits [OF assms(2)]
    opt_group_digits [OF assms(3)] opt_group_nondigit [OF assms(5)]
  show ?thesis
    unfolding duration_match_def s
    by (cases "hs = []"; cases "ms = []"; cases "ss = []")
       (simp_all add: component_def og letters_not_digits
          del: takeWhile_append dropWhile_append)
qed

lemma digit_val_digit_char: "d < 10 \<Longrightarrow> digit_val (digit_char d) = d"
proof -
  assume "d < 10"
  then have "d \<in> {0, 1, 2, 3, 4, 5, 6, 7, 8, 9}" by auto
  then show ?thesis by (auto simp: digit_val_def digit_char_def)
qed

lemma parseInt_snoc: "parseInt (ds @ [c]) = 10 * parseInt ds + digit_val c"
  by (simp add: parseInt_def)

lemma parseInt_toString: "parseInt (toString n) = n"
proof (induction n rule: toString.induct)
  case (1 n)
  show ?case
  proof (cases "n < 10")
    case True
    then show ?thesis by (simp add: toString.simps [of n] parseInt_def digit_val_digit_char)
  next
    case False
    with 1 have "parseInt (toString (n div 10)) = n div 10" by simp
    with False show ?thesis
      by (simp add: toString.simps [of n] parseInt_snoc digit_val_digit_char)
  qed
qed

lemma length_toString: "length (toString n) = (if n < 10 then 1 else length (toString (n div 10)) + 1)"
  by (simp add: toString.simps [of n])

lemma pad_small: "n < 10 \<Longrightarrow> padStart 2 CHR ''0'' (toString n) = [CHR ''0'', digit_char n]"
  by (simp add: padStart_def toString.simps [of n] numeral_2_eq_2)

lemma pad_large: "10 \<le> n \<Longrightarrow> padStart 2 CHR ''0'' (toString n) = toString n"
proof -
  assume "10 \<le> n"
  then have "length (toString n) \<ge> 2"
    by (subst length_toString) (simp add: length_toString [of "n div 10"])
  then show ?thesis by (simp add: padStart_def)
qed

text \<open>
  Claim C4. An absent duration, and a text in which the pattern finds no match
  (one that nowhere contains \<open>PT\<close>), give no result. For a duration written as
  \<open>PT\<close> followed by the hour, minute and second components, each a run of
  digits with its letter or left out (a missing component counts as 0, and the
  numbers are below \<open>2 ^ 53\<close>, where the program's arithmetic is exact),
  standing after any text without \<open>PT\<close> and before any text that does not
  begin with a digit: with hours above 0 the result is the hours in decimal, a
  colon, the minutes padded, a colon, the seconds padded; with hours 0 it is the
  minutes in decimal, a colon, the seconds padded. Decimal rendering reads back
  as the number itself; padding puts one \<open>0\<close> in front of a value below 10 and
  leaves larger values as they are. The examples \<open>PT4M13S\<close>, \<open>PT1H2M3S\<close>, an
  absent input and \<open>garbage\<close> come out as \<open>4:13\<close>, \<open>1:02:03\<close>, nothing and
  nothing.
\<close>

theorem formatDuration_spec:
  "formatDuration None = None \<and>
   (\<not> is_substring ''PT'' d \<longrightarrow> formatDuration (Some d) = None) \<and>
   (list_all is_digit hs \<and> list_all is_digit ms \<and> list_all is_digit ss \<and>
    parseInt hs < 2 ^ 53 \<and> parseInt ms < 2 ^ 53 \<and> parseInt ss < 2 ^ 53 \<and>
    \<not> is_substring ''PT'' pre \<and> (post = [] \<or> \<not> is_digit (hd post)) \<longrightarrow>
    formatDuration (Some (pre @ ''PT'' @ component hs CHR ''H'' @ component ms CHR ''M'' @
        component ss CHR ''S'' @ post))
      = Some (if parseInt hs > 0
              then toString (parseInt hs) @ '':'' @ padStart 2 CHR ''0'' (toString (parseInt ms))
                   @ '':'' @ padStart 2 CHR ''0'' (toString (parseInt ss))
              else toString (parseInt ms) @ '':'' @ padStart 2 CHR ''0'' (toString (parseInt ss)))) \<and>
   parseInt (toString n) = n \<and>
   (n < 10 \<longrightarrow> padStart 2 CHR ''0'' (toString n) = [CHR ''0'', digit_char n]) \<and>
   (10 \<le> n \<longrightarrow> padStart 2 CHR ''0'' (toString n) = toString n) \<and>
   formatDuration (Some ''PT4M13S'') = Some ''4:13'' \<and>
   formatDuration (Some ''PT1H2M3S'') = Some ''1:02:03'' \<and>
   formatDuration (Some ''garbage'') = None"
proof -
  have a: "formatDuration None = None" by (simp add: formatDuration_def)
  have b: "\<not> is_substring ''PT'' d \<longrightarrow> formatDuration (Some d) = None"
    by (simp add: formatDuration_None_iff)
  have c: "formatDuration (Some (pre @ ''PT'' @ component hs CHR ''H'' @ component ms CHR ''M'' @
        component ss CHR ''S'' @ post))
      = Some (if parseInt hs > 0
              then toString (parseInt hs) @ '':'' @ padStart 2 CHR ''0'' (toString (parseInt ms))
                   @ '':'' @ padStart 2 CHR ''0'' (toString (parseInt ss))
              else toString (parseInt ms) @ '':'' @ padStart 2 CHR ''0'' (toString (parseInt ss)))"
    if "list_all is_digit hs" "list_all is_digit ms" "list_all is_digit ss"
      "\<not> is_substring ''PT'' pre" "post = [] \<or> \<not> is_digit (hd post)"
  proof -
    define e where
      "e = pre @ ''PT'' @ component hs CHR ''H'' @ component ms CHR ''M'' @
             component ss CHR ''S'' @ post"
    have p: "parseInt [] = 0" by (simp add: parseInt_def)
    have ne: "e \<noteq> []" by (simp add: e_def)
    have dm: "duration_match e = Some (if hs = [] then None else Some hs,
        if ms = [] then None else Some ms, if ss = [] then None else Some ss)"
      unfolding e_def by (rule duration_match_encoding [OF that])
    have "formatDuration (Some e)
      = Some (if parseInt hs > 0
              then toString (parseInt hs) @ '':'' @ padStart 2 CHR ''0'' (toString (parseInt ms))
                   @ '':'' @ padStart 2 CHR ''0'' (toString (parseInt ss))
              else toString (parseInt ms) @ '':'' @ padStart 2 CHR ''0'' (toString (parseInt ss)))"
      by (simp add: formatDuration_def Let_def p ne dm)
    then show ?thesis unfolding e_def .
  qed
  have e1: "formatDuration (Some ''PT4M13S'') = Some ''4:13''" by code_simp
  have e2: "formatDuration (Some ''PT1H2M3S'') = Some ''1:02:03''" by code_simp
  have e3: "formatDuration (Some ''garbage'') = None" by code_simp
  show ?thesis
    apply (intro conjI)
            apply (rule a)
           apply (rule b)
          apply (use c in blast)
         apply (rule parseInt_toString)
        apply (use pad_small in blast)
       apply (use pad_large in blast)
      apply (rule e1)
     apply (rule e2)
    apply (rule e3)
    done
qed

theorem formatDuration_spec_witness:
  "formatDuration (Some ''Length: PT2H05M (approx.)'') = Some ''2:05:00'' \<and>
   formatDuration (Some ''no duration'') = None \<and>
   padStart 2 CHR ''0'' (toString 7) = ''07'' \<and>
   padStart 2 CHR ''0'' (toString 42) = ''42''"
proof -
  have p: "parseInt ''2'' = 2" "parseInt ''05'' = 5" "parseInt '''' = 0"
    by (simp_all add: parseInt_def digit_val_def)
  have t: "toString 2 = ''2''" "toString 5 = ''5''" "toString 0 = ''0''" "toString 42 = ''42''"
    by (simp_all add: toString.simps digit_char_def)
  have npre: "\<not> is_substring ''PT'' ''Length: ''"
    unfolding includes_str_iff [symmetric] by code_simp
  have h: "list_all is_digit ''2'' \<and> list_all is_digit ''05'' \<and> list_all is_digit '''' \<and>
      parseInt ''2'' < 2 ^ 53 \<and> parseInt ''05'' < 2 ^ 53 \<and> parseInt '''' < 2 ^ 53 \<and>
      \<not> is_substring ''PT'' ''Length: '' \<and>
      ('' (approx.)'' = [] \<or> \<not> is_digit (hd '' (approx.)''))"
    unfolding p using npre by (simp add: is_digit_def)
  have n: "\<not> is_substring ''PT'' ''no duration''"
    unfolding includes_str_iff [symmetric] by code_simp
  have e: "''Length: '' @ ''PT'' @ component ''2'' CHR ''H'' @ component ''05'' CHR ''M'' @
      component '''' CHR ''S'' @ '' (approx.)'' = ''Length: PT2H05M (approx.)''"
    by (simp add: component_def)
  have r: "(if parseInt ''2'' > 0
            then toString (parseInt ''2'') @ '':'' @ padStart 2 CHR ''0'' (toString (parseInt ''05''))
                 @ '':'' @ padStart 2 CHR ''0'' (toString (parseInt ''''))
            else toString (parseInt ''05'') @ '':'' @ padStart 2 CHR ''0'' (toString (parseInt '''')))
      = ''2:05:00''"
    unfolding p t by (simp add: padStart_def)
  have d7: "[CHR ''0'', digit_char 7] = ''07''" by (simp add: digit_char_def)
  have s: "(7::nat) < 10" "(10::nat) \<le> 42" by simp_all
  note inst = formatDuration_spec [of "''no duration''" "''2''" "''05''" "''''" "''Length: ''"
      "'' (approx.)''" 7]
  from inst h have 1: "formatDuration (Some ''Length: PT2H05M (approx.)'') = Some ''2:05:00''"
    unfolding e r by (elim conjE) simp
  from inst n have 2: "formatDuration (Some ''no duration'') = None"
    by (elim conjE) simp
  from inst s(1) have 3: "padStart 2 CHR ''0'' (toString 7) = ''07''"
    unfolding d7 by (elim conjE) simp
  from formatDuration_spec [of "''no duration''" "''2''" "''05''" "''''" "''Length: ''"
      "'' (approx.)''" 42] s(2)
  have "padStart 2 CHR ''0'' (toString 42) = toString 42"
    by (elim conjE) simp
  with 1 2 3 t(4) show ?thesis by simp
qed

text \<open>
  Claim C10. The pattern is not anchored and every numeric component is
  optional, so every text that contains \<open>PT\<close> somewhere gets a result; \<open>PT\<close>
  alone and \<open>xPTy\<close> both come out as \<open>0:00\<close>.
\<close>

theorem formatDuration_contains_PT:
  "(is_substring ''PT'' d \<longrightarrow> (\<exists>r. formatDuration (Some d) = Some r)) \<and>
   formatDuration (Some ''PT'') = Some ''0:00'' \<and>
   formatDuration (Some ''xPTy'') = Some ''0:00''"
proof -
  have a: "is_substring ''PT'' d \<longrightarrow> (\<exists>r. formatDuration (Some d) = Some r)"
    using formatDuration_None_iff [of d] by auto
  have b: "formatDuration (Some ''PT'') = Some ''0:00''" by code_simp
  have c: "formatDuration (Some ''xPTy'') = Some ''0:00''" by code_simp
  from a b c show ?thesis by blast
qed

theorem formatDuration_contains_PT_witness:
  "is_substring ''PT'' ''SEPT 2024'' \<and> formatDuration (Some ''SEPT 2024'') = Some ''0:00''"
proof -
  have h: "is_substring ''PT'' ''SEPT 2024''"
    unfolding includes_str_iff [symmetric] by code_simp
  have v: "formatDuration (Some ''SEPT 2024'') = Some ''0:00''" by code_simp
  from formatDuration_contains_PT [of "''SEPT 2024''"] h
  have "\<exists>r. formatDuration (Some ''SEPT 2024'') = Some r" by blast
  with h v show ?thesis by simp
qed

section \<open>The Category Auto-Detector\<close>

lemma detect_shape:
  "(let d0 = [];
        d1 = (if m then d0 @ [''Music''] else d0);
        d2 = (if i then d1 @ [''Interviews''] else d1);
        d3 = (if p then d2 @ [''Podcasts''] else d2);
        d4 = (if f then d3 @ [''Freestyle''] else d3);
        d5 = (if ob then d4 @ [''Off The Porch''] else d4)
    in if length d5 > 0 then d5 else [''Music'']) =
   (let hits = (if m then [''Music''] else []) @ (if i then [''Interviews''] else []) @
               (if p then [''Podcasts''] else []) @ (if f then [''Freestyle''] else []) @
               (if ob then [''Off The Porch''] else [])
    in if hits = [] then [''Music''] else hits)"
  by (cases m; cases i; cases p; cases f; cases ob) (simp_all add: Let_def)

lemma filter_taxonomy:
  "filter P taxonomy =
      (if P ''Music'' then [''Music''] else []) @ (if P ''Interviews'' then [''Interviews''] else []) @
      (if P ''Podcasts'' then [''Podcasts''] else []) @ (if P ''Freestyle'' then [''Freestyle''] else []) @
      (if P ''Off The Porch'' then [''Off The Porch''] else [])"
  by (simp add: taxonomy_def)

lemma detected_Music:
  "detected t d ''Music'' \<longleftrightarrow>
     includes_str (toLowerCase (t @ '' '' @ d)) ''music'' \<or>
     includes_str (toLowerCase (t @ '' '' @ d)) ''song'' \<or>
     includes_str (toLowerCase (t @ '' '' @ d)) ''album'' \<or>
     includes_str (toLowerCase (t @ '' '' @ d)) ''artist'' \<or>
     includes_str (toLowerCase (t @ '' '' @ d)) ''beat'' \<or>
     includes_str (toLowerCase (t @ '' '' @ d)) ''track''"
  by (simp add: detected_def keywords_of_def includes_str_iff)

lemma detected_Interviews:
  "detected t d ''Interviews'' \<longleftrightarrow>
     includes_str (toLowerCase (t @ '' '' @ d)) ''interview'' \<or>
     includes_str (toLowerCase (t @ '' '' @ d)) ''conversation'' \<or>
     includes_str (toLowerCase (t @ '' '' @ d)) ''talk'' \<or>
     includes_str (toLowerCase (t @ '' '' @ d)) ''discussion''"
  by (simp add: detected_def keywords_of_def includes_str_iff)

lemma detected_Podcasts:
  "detected t d ''Podcasts'' \<longleftrightarrow>
     includes_str (toLowerCase (t @ '' '' @ d)) ''podcast'' \<or>
     includes_str (toLowerCase (t @ '' '' @ d)) ''episode'' \<or>
     includes_str (toLowerCase (t @ '' '' @ d)) ''show''"
  by (simp add: detected_def keywords_of_def includes_str_iff)

lemma detected_Freestyle:
  "detected t d ''Freestyle'' \<longleftrightarrow>
     includes_str (toLowerCase (t @ '' '' @ d)) ''freestyle'' \<or>
     includes_str (toLowerCase (t @ '' '' @ d)) ''cypher'' \<or>
     includes_str (toLowerCase (t @ '' '' @ d)) ''bars'' \<or>
     includes_str (toLowerCase (t @ '' '' @ d)) ''rap'' \<or>
     includes_str (toLowerCase (t @ '' '' @ d)) ''flow''"
  by (simp add: detected_def keywords_of_def includes_str_iff)

lemma detected_Off_The_Porch:
  "detected t d ''Off The Porch'' \<longleftrightarrow>
     includes_str (toLowerCase (t @ '' '' @ d)) ''off the porch'' \<or>
     includes_str (toLowerCase (t @ '' '' @ d)) ''porch'' \<or>
     includes_str (toLowerCase (t @ '' '' @ d)) ''street'' \<or>
     includes_str (toLowerCase (t @ '' '' @ d)) ''hood''"
  by (simp add: detected_def keywords_of_def includes_str_iff)

lemma detect_as_filter:
  "detectCategoriesFromContent t d =
     (let hits = filter (detected t d) taxonomy in if hits = [] then [''Music''] else hits)"
proof -
  have "detectCategoriesFromContent t d =
    (let d0 = [];
        d1 = (if detected t d ''Music'' then d0 @ [''Music''] else d0);
        d2 = (if detected t d ''Interviews'' then d1 @ [''Interviews''] else d1);
        d3 = (if detected t d ''Podcasts'' then d2 @ [''Podcasts''] else d2);
        d4 = (if detected t d ''Freestyle'' then d3 @ [''Freestyle''] else d3);
        d5 = (if detected t d ''Off The Porch'' then d4 @ [''Off The Porch''] else d4)
    in if length d5 > 0 then d5 else [''Music''])"
    unfolding detected_Music detected_Interviews detected_Podcasts detected_Freestyle
      detected_Off_The_Porch detectCategoriesFromContent_def
      Let_def [of "toLowerCase (t @ '' '' @ d)"]
    by (rule refl)
  also have "\<dots> = (let hits = filter (detected t d) taxonomy in if hits = [] then [''Music''] else hits)"
    unfolding filter_taxonomy by (rule detect_shape)
  finally show ?thesis .
qed

lemma keywords_of_taxonomy: "keywords_of c \<noteq> [] \<Longrightarrow> c \<in> set taxonomy"
  by (simp add: keywords_of_def taxonomy_def split: if_splits)

lemma detected_taxonomy: "detected t d c \<Longrightarrow> c \<in> set taxonomy"
proof -
  assume "detected t d c"
  then obtain k where "k \<in> set (keywords_of c)" unfolding detected_def by blast
  then have "keywords_of c \<noteq> []" by auto
  then show ?thesis by (rule keywords_of_taxonomy)
qed

text \<open>
  Claim C5. The detector returns the taxonomy categories (in the order Music,
  Interviews, Podcasts, Freestyle, Off The Porch) for which some keyword of the
  category occurs in the lower-cased text made of the title, one space and the
  description, and \<open>[Music]\<close> when there is none. So the output is never empty;
  when some keyword matches, a category is in the output iff one of its own
  keywords matches; when none matches, the output is \<open>[Music]\<close>. The three
  examples of the specification hold.
\<close>

theorem detectCategoriesFromContent_spec:
  "detectCategoriesFromContent t d =
     (let hits = filter (detected t d) taxonomy in if hits = [] then [''Music''] else hits) \<and>
   detectCategoriesFromContent t d \<noteq> [] \<and>
   ((\<exists>c'. detected t d c') \<longrightarrow> (c \<in> set (detectCategoriesFromContent t d) \<longleftrightarrow> detected t d c)) \<and>
   (\<not> (\<exists>c'. detected t d c') \<longrightarrow> detectCategoriesFromContent t d = [''Music'']) \<and>
   detectCategoriesFromContent ''Freestyle cypher at the park'' '''' = [''Freestyle''] \<and>
   detectCategoriesFromContent '''' '''' = [''Music''] \<and>
   detectCategoriesFromContent ''Weekly podcast interview episode'' '''' = [''Interviews'', ''Podcasts'']"
proof -
  let ?hits = "filter (detected t d) taxonomy"
  have eq: "detectCategoriesFromContent t d = (if ?hits = [] then [''Music''] else ?hits)"
    using detect_as_filter [of t d] by (simp add: Let_def)
  have ne: "detectCategoriesFromContent t d \<noteq> []"
    unfolding eq by simp
  have hits: "?hits \<noteq> [] \<longleftrightarrow> (\<exists>c'. detected t d c')"
    using detected_taxonomy [of t d] by (auto simp: filter_empty_conv)
  have mem: "c \<in> set ?hits \<longleftrightarrow> detected t d c"
    using detected_taxonomy [of t d c] by auto
  have some: "(\<exists>c'. detected t d c') \<longrightarrow>
      (c \<in> set (detectCategoriesFromContent t d) \<longleftrightarrow> detected t d c)"
  proof
    assume "\<exists>c'. detected t d c'"
    with hits have "?hits \<noteq> []" by simp
    with eq have "detectCategoriesFromContent t d = ?hits" by simp
    with mem show "c \<in> set (detectCategoriesFromContent t d) \<longleftrightarrow> detected t d c" by simp
  qed
  have none: "\<not> (\<exists>c'. detected t d c') \<longrightarrow> detectCategoriesFromContent t d = [''Music'']"
  proof
    assume "\<not> (\<exists>c'. detected t d c')"
    with hits have "?hits = []" by blast
    with eq show "detectCategoriesFromContent t d = [''Music'']" by simp
  qed
  have e1: "detectCategoriesFromContent ''Freestyle cypher at the park'' '''' = [''Freestyle'']"
    by code_simp
  have e2: "detectCategoriesFromContent '''' '''' = [''Music'']"
    by code_simp
  have e3: "detectCategoriesFromContent ''Weekly podcast interview episode'' ''''
      = [''Interviews'', ''Podcasts'']"
    by code_simp
  show ?thesis
    apply (intro conjI)
          apply (rule detect_as_filter)
         apply (rule ne)
        apply (rule some)
       apply (rule none)
      apply (rule e1)
     apply (rule e2)
    apply (rule e3)
    done
qed

theorem detectCategoriesFromContent_spec_witness:
  "detected ''Street Talk'' ''a conversation'' ''Interviews'' \<and>
   ''Interviews'' \<in> set (detectCategoriesFromContent ''Street Talk'' ''a conversation'') \<and>
   detectCategoriesFromContent ''Street Talk'' ''a conversation'' = [''Interviews'', ''Off The Porch'']"
proof -
  have h: "detected ''Street Talk'' ''a conversation'' ''Interviews''"
    unfolding detected_Interviews by code_simp
  have v: "detectCategoriesFromContent ''Street Talk'' ''a conversation''
      = [''Interviews'', ''Off The Porch'']"
    by code_simp
  from detectCategoriesFromContent_spec [of "''Street Talk''" "''a conversation''" "''Interviews''"] h
  have "''Interviews'' \<in> set (detectCategoriesFromContent ''Street Talk'' ''a conversation'')"
    by blast
  with h v show ?thesis by simp
qed

section \<open>The Category Reconciler\<close>

lemma set_foldl_set_add: "set (foldl set_add acc xs) = set acc \<union> set xs"
  by (induction xs arbitrary: acc) (auto simp: set_add_def)

lemma distinct_foldl_set_add: "distinct acc \<Longrightarrow> distinct (foldl set_add acc xs)"
  by (induction xs arbitrary: acc) (auto simp: set_add_def)

lemma set_new_Set: "set (new_Set xs) = set xs"
  by (simp add: new_Set_def set_foldl_set_add)

lemma distinct_new_Set: "distinct (new_Set xs)"
  by (simp add: new_Set_def distinct_foldl_set_add)

lemma new_Set_append: "new_Set (xs @ ys) = foldl set_add (new_Set xs) ys"
  by (simp add: new_Set_def)

lemma foldl_set_add_known:
  "set xs \<subseteq> insert a (set acc) \<Longrightarrow>
   foldl set_add acc xs = (if a \<in> set xs \<and> a \<notin> set acc then acc @ [a] else acc)"
proof (induction xs arbitrary: acc)
  case Nil
  show ?case by simp
next
  case (Cons x xs)
  from Cons.prems have sub: "set xs \<subseteq> insert a (set (set_add acc x))"
    by (auto simp: set_add_def)
  show ?case
    using Cons.prems by (auto simp: Cons.IH [OF sub]) (auto simp: set_add_def)
qed

lemma set_insert_by: "set (insert_by cmp x ys) = insert x (set ys)"
  by (induction ys) auto

lemma set_sort_by: "set (sort_by cmp xs) = set xs"
  by (induction xs) (auto simp: sort_by_def set_insert_by)

lemma sort_by_Cons: "sort_by cmp (x # xs) = insert_by cmp x (sort_by cmp xs)"
  by (simp add: sort_by_def)

lemma sorted_insert_by:
  assumes "consistent cmp" and "sorted_wrt (\<lambda>a b. cmp a b \<le> 0) ys"
  shows "sorted_wrt (\<lambda>a b. cmp a b \<le> 0) (insert_by cmp x ys)"
  using assms(2)
proof (induction ys)
  case Nil
  show ?case by simp
next
  case (Cons y ys)
  from assms(1) have total: "\<And>a b. cmp a b \<le> 0 \<or> cmp b a \<le> 0"
    and trans: "\<And>a b c. cmp a b \<le> 0 \<Longrightarrow> cmp b c \<le> 0 \<Longrightarrow> cmp a c \<le> 0"
    unfolding consistent_def by blast+
  show ?case
  proof (cases "cmp x y \<le> 0")
    case True
    with Cons.prems trans show ?thesis by auto
  next
    case False
    with total have "cmp y x \<le> 0" by blast
    with False Cons show ?thesis by (auto simp: set_insert_by)
  qed
qed

lemma sorted_sort_by:
  "consistent cmp \<Longrightarrow> sorted_wrt (\<lambda>a b. cmp a b \<le> 0) (sort_by cmp xs)"
  by (induction xs) (simp_all add: sort_by_def sorted_insert_by)

lemma indexOf_ge: "- 1 \<le> indexOf xs x"
  by (induction xs) (auto simp: Let_def)

lemma indexOf_absent: "indexOf xs x = - 1 \<longleftrightarrow> x \<notin> set xs"
proof (induction xs)
  case Nil
  show ?case by simp
next
  case (Cons y ys)
  from indexOf_ge [of ys x] have "indexOf ys x + 1 \<noteq> - 1" by simp
  with Cons show ?case by (auto simp: Let_def)
qed

lemma indexOf_zero: "indexOf (y # ys) x = 0 \<longleftrightarrow> y = x"
  using indexOf_ge [of ys x] by (auto simp: Let_def)

lemma compareCategories_cases:
  "compareCategories lc a b =
     (if a \<in> set order \<and> b \<in> set order then indexOf order a - indexOf order b
      else if a \<in> set order then - 1
      else if b \<in> set order then 1
      else lc a b)"
  by (simp add: compareCategories_def Let_def indexOf_absent)

lemma consistent_compareCategories:
  assumes "consistent lc"
  shows "consistent (compareCategories lc)"
proof -
  from assms have total: "\<And>a b. lc a b \<le> 0 \<or> lc b a \<le> 0"
    and trans: "\<And>a b c. lc a b \<le> 0 \<Longrightarrow> lc b c \<le> 0 \<Longrightarrow> lc a c \<le> 0"
    unfolding consistent_def by blast+
  have t: "compareCategories lc a b \<le> 0 \<or> compareCategories lc b a \<le> 0" for a b
    using total [of a b] by (auto simp: compareCategories_cases)
  have tr: "compareCategories lc a c \<le> 0"
    if "compareCategories lc a b \<le> 0" "compareCategories lc b c \<le> 0" for a b c
    using that trans [of a b c]
    by (auto simp: compareCategories_cases split: if_splits)
  from t tr show ?thesis unfolding consistent_def by blast
qed

lemma set_filter_Boolean: "set (filter_Boolean xs) = {s. s \<noteq> [] \<and> Some s \<in> set xs}"
  by (induction xs rule: filter_Boolean.induct) auto

lemma set_allUniqueCategories:
  "set (allUniqueCategories vs) =
     {c. c \<noteq> [] \<and> (\<exists>v \<in> set vs. category v = Some c \<or> c \<in> set (tagsOrEmpty v))}"
  unfolding allUniqueCategories_def categoryFromField_def categoriesFromTags_def tagsOrEmpty_def
  by (auto simp: set_new_Set set_filter_Boolean split: option.splits) force+

lemma set_sort_default: "set (sort_default xs) = set xs"
  by (simp add: sort_default_def set_sort_by)

lemma categories_loaded:
  assumes "allUniqueCategories vs \<noteq> []"
  shows "categories lc (loadVideos dyn vs) =
           sort_by (compareCategories lc)
             (''All'' # new_Set (drop 1 staticCategories @ sort_default (allUniqueCategories vs)))"
  using assms by (simp add: categories_def loadVideos_def Let_def)

lemma code_unit_compare_total: "code_unit_compare a b \<le> 0 \<or> code_unit_compare b a \<le> 0"
  by (induction a b rule: code_unit_compare.induct) auto

lemma code_unit_compare_le_iff:
  "code_unit_compare (x # xs) (y # ys) \<le> 0 \<longleftrightarrow>
     (of_char x :: nat) < of_char y \<or> ((of_char x :: nat) = of_char y \<and> code_unit_compare xs ys \<le> 0)"
  by auto

lemma code_unit_compare_trans:
  "code_unit_compare a b \<le> 0 \<Longrightarrow> code_unit_compare b c \<le> 0 \<Longrightarrow> code_unit_compare a c \<le> 0"
proof (induction a arbitrary: b c)
  case Nil
  then show ?case by (cases c) simp_all
next
  case (Cons x xs)
  from Cons.prems(1) obtain y ys where b: "b = y # ys" by (cases b) auto
  from Cons.prems(2) b obtain z zs where c: "c = z # zs" by (cases c) auto
  from Cons.prems have 1: "(of_char x :: nat) < of_char y \<or>
      ((of_char x :: nat) = of_char y \<and> code_unit_compare xs ys \<le> 0)"
    and 2: "(of_char y :: nat) < of_char z \<or>
      ((of_char y :: nat) = of_char z \<and> code_unit_compare ys zs \<le> 0)"
    unfolding b c code_unit_compare_le_iff by simp_all
  from 1 2 Cons.IH [of ys zs]
  have "(of_char x :: nat) < of_char z \<or>
      ((of_char x :: nat) = of_char z \<and> code_unit_compare xs zs \<le> 0)"
    by (elim disjE conjE) simp_all
  then show ?case unfolding c code_unit_compare_le_iff .
qed

lemma consistent_code_unit_compare: "consistent code_unit_compare"
  unfolding consistent_def using code_unit_compare_total code_unit_compare_trans by blast

lemma new_Set_static_tail: "new_Set (drop 1 staticCategories) = drop 1 staticCategories"
  by code_simp

lemma categories_baseline_shape:
  assumes "set (allUniqueCategories vs) \<subseteq> set staticCategories"
    and "allUniqueCategories vs \<noteq> [] \<or> dyn = []"
  shows "categories lc (loadVideos dyn vs) =
           (if ''All'' \<in> set (allUniqueCategories vs) then ''All'' # staticCategories
            else staticCategories)"
proof (cases "allUniqueCategories vs = []")
  case True
  with assms(2) have "dyn = []" by simp
  with True show ?thesis by (simp add: loadVideos_def categories_def)
next
  case False
  let ?xs = "sort_default (allUniqueCategories vs)"
  let ?base = "drop 1 staticCategories"
  have sub: "set ?xs \<subseteq> insert ''All'' (set ?base)"
    using assms(1) by (auto simp: set_sort_default staticCategories_def)
  have notin: "''All'' \<notin> set ?base" by (simp add: staticCategories_def)
  have "new_Set (?base @ ?xs) = foldl set_add ?base ?xs"
    by (simp only: new_Set_append new_Set_static_tail)
  also have "\<dots> = (if ''All'' \<in> set ?xs \<and> ''All'' \<notin> set ?base then ?base @ [''All''] else ?base)"
    by (rule foldl_set_add_known [OF sub])
  finally have merged: "new_Set (?base @ ?xs) =
      (if ''All'' \<in> set (allUniqueCategories vs) then ?base @ [''All''] else ?base)"
    using notin by (simp add: set_sort_default)
  have s1: "sort_by (compareCategories lc) (''All'' # ?base @ [''All'']) = ''All'' # staticCategories"
    by code_simp
  have s2: "sort_by (compareCategories lc) (''All'' # ?base) = staticCategories"
    by code_simp
  have "categories lc (loadVideos dyn vs) =
      sort_by (compareCategories lc) (''All'' # new_Set (?base @ ?xs))"
    by (rule categories_loaded [OF False])
  then show ?thesis unfolding merged using s1 s2 by simp
qed

lemma loadVideos_keeps_state: "allUniqueCategories vs = [] \<Longrightarrow> loadVideos dyn vs = dyn"
  by (simp add: loadVideos_def)

lemma distinct_insert_by: "distinct (insert_by cmp x ys) \<longleftrightarrow> x \<notin> set ys \<and> distinct ys"
  by (induction ys) (auto simp: set_insert_by)

lemma distinct_sort_by: "distinct (sort_by cmp xs) \<longleftrightarrow> distinct xs"
  by (induction xs) (simp_all add: sort_by_def distinct_insert_by set_sort_by [unfolded sort_by_def])

lemma compareCategories_All: "compareCategories lc ''All'' y \<le> 0"
proof -
  have a: "''All'' \<in> set order" and i: "indexOf order ''All'' = 0"
    by (simp_all add: order_def)
  have "y \<in> set order \<Longrightarrow> 0 \<le> indexOf order y"
    using indexOf_ge [of order y] indexOf_absent [of order y] by linarith
  with a i show ?thesis by (simp add: compareCategories_cases)
qed

lemma insert_by_All:
  "insert_by (compareCategories lc) ''All'' ys = ''All'' # ys"
  by (cases ys) (simp_all add: compareCategories_All)

lemma categories_shape:
  assumes "allUniqueCategories vs \<noteq> []"
  shows "categories lc (loadVideos dyn vs) =
           ''All'' # sort_by (compareCategories lc)
             (new_Set (drop 1 staticCategories @ sort_default (allUniqueCategories vs)))"
  unfolding categories_loaded [OF assms] sort_by_Cons insert_by_All ..

lemma categories_distinct_iff:
  assumes "allUniqueCategories vs \<noteq> [] \<or> dyn = []"
  shows "distinct (categories lc (loadVideos dyn vs)) \<longleftrightarrow>
           ''All'' \<notin> set (allUniqueCategories vs)"
proof (cases "allUniqueCategories vs = []")
  case True
  with assms have "dyn = []" by simp
  with True show ?thesis
    by (simp add: loadVideos_def categories_def staticCategories_def)
next
  case False
  have "''All'' \<notin> set (drop 1 staticCategories)" by (simp add: staticCategories_def)
  then show ?thesis
    unfolding categories_shape [OF False]
    by (simp add: distinct_sort_by distinct_new_Set set_sort_by set_new_Set set_sort_default)
qed

text \<open>
  Claim C1, on the code. The list is built as \<open>All\<close> followed by a set, and the
  set is made from the static list without its first entry and the loaded list
  without its first entry. The loaded list is \<open>All\<close> followed by the sorted
  observed values, so an \<open>All\<close> that the records themselves carry stays in the
  set. For the record \<open>B\<close> of the filter examples (category \<open>All\<close>, tags
  \<open>[Freestyle, All]\<close>) the result holds \<open>All\<close> twice, whatever the list held
  before the load. In general the result of a first load is free of duplicates
  exactly when no record carries \<open>All\<close> in its \<open>category\<close> field or its tags.
\<close>

theorem reconcile_duplicate_All:
  "categories lc (loadVideos dyn [video_B]) =
     [''All'', ''All'', ''Music'', ''Interviews'', ''Podcasts'', ''Freestyle'', ''Off The Porch''] \<and>
   \<not> distinct (categories lc (loadVideos dyn [video_B])) \<and>
   (distinct (categories lc (loadVideos [] vs)) \<longleftrightarrow> ''All'' \<notin> set (allUniqueCategories vs))"
proof -
  have v: "categories lc (loadVideos dyn [video_B]) =
     [''All'', ''All'', ''Music'', ''Interviews'', ''Podcasts'', ''Freestyle'', ''Off The Porch'']"
    unfolding video_B_def by code_simp
  have d: "\<not> distinct (categories lc (loadVideos dyn [video_B]))" unfolding v by simp
  have i: "distinct (categories lc (loadVideos [] vs)) \<longleftrightarrow> ''All'' \<notin> set (allUniqueCategories vs)"
    by (rule categories_distinct_iff) simp
  from v d i show ?thesis by (intro conjI)
qed

lemma loadVideos_without_categories:
  "allUniqueCategories vs = [] \<Longrightarrow> categories lc (loadVideos dyn vs) = categories lc dyn"
  by (simp add: loadVideos_def)

lemma observed_in_static:
  assumes "\<forall>v \<in> set vs. (\<forall>c. category v = Some c \<longrightarrow> c \<in> set staticCategories) \<and>
             set (tagsOrEmpty v) \<subseteq> set staticCategories"
  shows "set (allUniqueCategories vs) \<subseteq> set staticCategories"
proof
  fix c
  assume "c \<in> set (allUniqueCategories vs)"
  then obtain v where v: "v \<in> set vs" and c: "category v = Some c \<or> c \<in> set (tagsOrEmpty v)"
    unfolding set_allUniqueCategories by blast
  from assms v have "(\<forall>c. category v = Some c \<longrightarrow> c \<in> set staticCategories) \<and>
      set (tagsOrEmpty v) \<subseteq> set staticCategories" by blast
  with c show "c \<in> set staticCategories" by blast
qed

text \<open>
  Claim C6, as amended. The list depends on the records of the load and on the
  list the load before left behind. On the first load of a page, with no record,
  it is the static list. A load that observes no category (no record, or only
  records without a non-empty \<open>category\<close> field or tag) does not recompute the
  list: the one of the load before stays. When every \<open>category\<close> field and tag of
  the records is a member of the static list, none of them is \<open>All\<close>, and the
  load observes a category or is the first one, the result is the static list in
  its own order, unchanged. What happens when a record carries \<open>All\<close> is the
  subject of claim C1 and is left open here.
\<close>

theorem categories_baseline:
  "categories lc (loadVideos [] []) = staticCategories \<and>
   (allUniqueCategories vs = [] \<longrightarrow> categories lc (loadVideos dyn vs) = categories lc dyn) \<and>
   (set (allUniqueCategories vs) \<subseteq> set staticCategories \<and>
    ''All'' \<notin> set (allUniqueCategories vs) \<and>
    (allUniqueCategories vs \<noteq> [] \<or> dyn = []) \<longrightarrow>
      categories lc (loadVideos dyn vs) = staticCategories) \<and>
   ((\<forall>v \<in> set vs. (\<forall>c. category v = Some c \<longrightarrow> c \<in> set staticCategories) \<and>
                    set (tagsOrEmpty v) \<subseteq> set staticCategories) \<longrightarrow>
      set (allUniqueCategories vs) \<subseteq> set staticCategories)"
proof -
  have e: "categories lc (loadVideos [] []) = staticCategories" by code_simp
  have k: "allUniqueCategories vs = [] \<longrightarrow> categories lc (loadVideos dyn vs) = categories lc dyn"
    by (simp add: loadVideos_without_categories)
  have m: "set (allUniqueCategories vs) \<subseteq> set staticCategories \<and>
      ''All'' \<notin> set (allUniqueCategories vs) \<and>
      (allUniqueCategories vs \<noteq> [] \<or> dyn = []) \<longrightarrow>
      categories lc (loadVideos dyn vs) = staticCategories"
    using categories_baseline_shape [of vs dyn lc] by simp
  have b: "(\<forall>v \<in> set vs. (\<forall>c. category v = Some c \<longrightarrow> c \<in> set staticCategories) \<and>
                    set (tagsOrEmpty v) \<subseteq> set staticCategories) \<longrightarrow>
      set (allUniqueCategories vs) \<subseteq> set staticCategories"
    using observed_in_static [of vs] by blast
  from e k m b show ?thesis by (intro conjI)
qed

theorem categories_baseline_witness:
  "allUniqueCategories [video_A] = [''Music''] \<and>
   categories code_unit_compare (loadVideos [''All'', ''Vlogs''] [video_A]) = staticCategories \<and>
   allUniqueCategories [] = [] \<and>
   categories code_unit_compare (loadVideos [''All'', ''Vlogs''] []) =
     [''All'', ''Music'', ''Interviews'', ''Podcasts'', ''Freestyle'', ''Off The Porch'', ''Vlogs'']"
proof -
  have a: "allUniqueCategories [video_A] = [''Music'']"
    unfolding video_A_def by code_simp
  have n: "allUniqueCategories [] = []" by code_simp
  have r: "(\<forall>v \<in> set [video_A]. (\<forall>c. category v = Some c \<longrightarrow> c \<in> set staticCategories) \<and>
                    set (tagsOrEmpty v) \<subseteq> set staticCategories)"
    by (simp add: video_A_def tagsOrEmpty_def staticCategories_def)
  note t = categories_baseline [of code_unit_compare "[video_A]" "[''All'', ''Vlogs'']"]
  from t r have h: "set (allUniqueCategories [video_A]) \<subseteq> set staticCategories"
    by blast
  have h2: "''All'' \<notin> set (allUniqueCategories [video_A])"
    and h3: "allUniqueCategories [video_A] \<noteq> [] \<or> [''All'', ''Vlogs''] = []"
    unfolding a by simp_all
  from t h h2 h3
  have 1: "categories code_unit_compare (loadVideos [''All'', ''Vlogs''] [video_A]) = staticCategories"
    by blast
  from categories_baseline [of code_unit_compare "[]" "[''All'', ''Vlogs'']"] n
  have "categories code_unit_compare (loadVideos [''All'', ''Vlogs''] []) =
      categories code_unit_compare [''All'', ''Vlogs'']"
    by blast
  moreover have "categories code_unit_compare [''All'', ''Vlogs''] =
      [''All'', ''Music'', ''Interviews'', ''Podcasts'', ''Freestyle'', ''Off The Porch'', ''Vlogs'']"
    by code_simp
  ultimately have 2: "categories code_unit_compare (loadVideos [''All'', ''Vlogs''] []) =
      [''All'', ''Music'', ''Interviews'', ''Podcasts'', ''Freestyle'', ''Off The Porch'', ''Vlogs'']"
    by simp
  from a 1 n 2 show ?thesis by (intro conjI)
qed

theorem empty_load_not_baseline_counterexample:
  "categories code_unit_compare
     (loadVideos
        (loadVideos []
           [\<lparr>id_field = ''d'', title = ''Four'', description = ''fourth'',
             videoUrl = ''https://youtu.be/d'', thumbnail = None, category = Some ''Vlogs'',
             tags = Some [''Vlogs''], duration = None\<rparr>])
        [])
   \<noteq> staticCategories"
  by code_simp

text \<open>
  Claim C7. When a load observes at least one category, whatever the list held
  before, and with \<open>localeCompare\<close> a consistent comparator: the result starts
  with \<open>All\<close>; it holds exactly the static categories and the observed ones;
  no entry outside the preferred order stands before an entry of the preferred
  order; entries of the preferred order stand by their index in it; entries
  outside it stand in the order of \<open>localeCompare\<close>.
\<close>

theorem categories_order:
  assumes "consistent lc" and "allUniqueCategories vs \<noteq> []"
  shows "categories lc (loadVideos dyn vs) \<noteq> [] \<and>
         hd (categories lc (loadVideos dyn vs)) = ''All'' \<and>
         set (categories lc (loadVideos dyn vs)) = set staticCategories \<union> set (allUniqueCategories vs) \<and>
         sorted_wrt (\<lambda>a b. b \<in> set order \<longrightarrow> a \<in> set order) (categories lc (loadVideos dyn vs)) \<and>
         sorted_wrt (\<lambda>a b. a \<in> set order \<and> b \<in> set order \<longrightarrow> indexOf order a \<le> indexOf order b)
           (categories lc (loadVideos dyn vs)) \<and>
         sorted_wrt (\<lambda>a b. a \<notin> set order \<and> b \<notin> set order \<longrightarrow> lc a b \<le> 0)
           (categories lc (loadVideos dyn vs))"
proof -
  let ?cc = "compareCategories lc"
  let ?out = "categories lc (loadVideos dyn vs)"
  let ?inp = "''All'' # new_Set (drop 1 staticCategories @ sort_default (allUniqueCategories vs))"
  have out: "?out = sort_by ?cc ?inp"
    by (rule categories_loaded [OF assms(2)])
  have sorted: "sorted_wrt (\<lambda>a b. ?cc a b \<le> 0) ?out"
    unfolding out by (rule sorted_sort_by [OF consistent_compareCategories [OF assms(1)]])
  have set_out: "set ?out = set staticCategories \<union> set (allUniqueCategories vs)"
    unfolding out set_sort_by
    by (auto simp: set_new_Set set_sort_default staticCategories_def)
  have All_in: "''All'' \<in> set ?out"
    unfolding set_out by (simp add: staticCategories_def)
  then have ne: "?out \<noteq> []" by auto
  have hd: "hd ?out = ''All''"
  proof (rule ccontr)
    assume neq: "hd ?out \<noteq> ''All''"
    from ne obtain h t where ht: "?out = h # t" by (cases ?out) auto
    with neq All_in have "''All'' \<in> set t" by auto
    with sorted ht have le: "?cc h ''All'' \<le> 0" by auto
    have All_order: "''All'' \<in> set order" by (simp add: order_def)
    from le All_order have h_order: "h \<in> set order"
      by (auto simp: compareCategories_cases split: if_splits)
    have i0: "indexOf order ''All'' = 0" by (simp add: order_def)
    from le All_order h_order i0 have "indexOf order h \<le> 0"
      by (simp add: compareCategories_cases)
    moreover from h_order have "indexOf order h \<noteq> - 1" by (simp add: indexOf_absent)
    ultimately have "indexOf order h = 0" using indexOf_ge [of order h] by linarith
    then have "h = ''All''" unfolding order_def by (simp only: indexOf_zero)
    with neq ht show False by simp
  qed
  have s1: "sorted_wrt (\<lambda>a b. b \<in> set order \<longrightarrow> a \<in> set order) ?out"
    by (rule sorted_wrt_mono_rel [OF _ sorted])
       (auto simp: compareCategories_cases split: if_splits)
  have s2: "sorted_wrt (\<lambda>a b. a \<in> set order \<and> b \<in> set order \<longrightarrow> indexOf order a \<le> indexOf order b) ?out"
    by (rule sorted_wrt_mono_rel [OF _ sorted])
       (auto simp: compareCategories_cases split: if_splits)
  have s3: "sorted_wrt (\<lambda>a b. a \<notin> set order \<and> b \<notin> set order \<longrightarrow> lc a b \<le> 0) ?out"
    by (rule sorted_wrt_mono_rel [OF _ sorted])
       (auto simp: compareCategories_cases split: if_splits)
  from ne hd set_out s1 s2 s3 show ?thesis by (intro conjI)
qed

theorem categories_order_witness:
  "consistent code_unit_compare \<and>
   allUniqueCategories [video_C] = [''Vlogs'', ''Zed'', ''apple'', ''Banana'', ''Music''] \<and>
   hd (categories code_unit_compare (loadVideos [] [video_C])) = ''All'' \<and>
   categories code_unit_compare (loadVideos [] [video_C]) =
     [''All'', ''Music'', ''Interviews'', ''Podcasts'', ''Freestyle'', ''Off The Porch'',
      ''Banana'', ''Vlogs'', ''Zed'', ''apple'']"
proof -
  have a: "allUniqueCategories [video_C] = [''Vlogs'', ''Zed'', ''apple'', ''Banana'', ''Music'']"
    unfolding video_C_def by code_simp
  then have ne: "allUniqueCategories [video_C] \<noteq> []" by simp
  have v: "categories code_unit_compare (loadVideos [] [video_C]) =
     [''All'', ''Music'', ''Interviews'', ''Podcasts'', ''Freestyle'', ''Off The Porch'',
      ''Banana'', ''Vlogs'', ''Zed'', ''apple'']"
    unfolding video_C_def by code_simp
  from categories_order [OF consistent_code_unit_compare ne, of "[]"]
  have "hd (categories code_unit_compare (loadVideos [] [video_C])) = ''All''"
    by (elim conjE)
  with consistent_code_unit_compare a v show ?thesis by simp
qed

section \<open>Totality and absent fields\<close>









lemma filter_raw_total:
  "(\<And>x. x \<in> set xs \<Longrightarrow> p x = Inr (q x)) \<Longrightarrow> filter_raw p xs = Inr (filter q xs)"
  by (induction xs) simp_all














end
